theory Spec2Isabelle
  imports Main
begin

section \<open>Python values used by \<open>data_diff/diff_tables.py\<close>\<close>

text \<open>
  Keys are Python integers (unbounded), so they are \<^typ>\<open>int\<close>; an optional key
  (\<open>start_key: DbKey = None\<close>) is an \<^typ>\<open>int option\<close>.  Every \<open>raise\<close>, failed
  \<open>assert\<close> and failing builtin of the source is a value of \<open>error\<close>; a function that
  can raise returns \<open>error + 'a\<close> with \<open>Inl\<close> for the exception.
\<close>

datatype error =
    ValueError string
  | AssertionError
  | ZeroDivisionError
  | TypeError

text \<open>
  \<open>range(start, stop, step)\<close> as a list.  Python raises \<open>ValueError\<close> for a zero step,
  counts upwards while the value is below \<open>stop\<close> for a positive step and downwards
  while it is above \<open>stop\<close> for a negative one.
\<close>

function py_range_up :: "int \<Rightarrow> int \<Rightarrow> int \<Rightarrow> int list" where
  "py_range_up i stop step =
     (if 0 < step \<and> i < stop then i # py_range_up (i + step) stop step else [])"
  by pat_completeness auto
termination
  by (relation "measure (\<lambda>(i, stop, step). nat (stop - i))") auto

function py_range_down :: "int \<Rightarrow> int \<Rightarrow> int \<Rightarrow> int list" where
  "py_range_down i stop step =
     (if step < 0 \<and> stop < i then i # py_range_down (i + step) stop step else [])"
  by pat_completeness auto
termination
  by (relation "measure (\<lambda>(i, stop, step). nat (i - stop))") auto

declare py_range_up.simps [simp del]
declare py_range_down.simps [simp del]

definition py_range :: "int \<Rightarrow> int \<Rightarrow> int \<Rightarrow> error + int list" where
  "py_range start stop step =
     (if step = 0 then Inl (ValueError ''range() arg 3 must not be zero'')
      else if 0 < step then Inr (py_range_up start stop step)
      else Inr (py_range_down start stop step))"

text \<open>
  The slice \<open>xs[1 : stop]\<close>.  A negative \<open>stop\<close> counts from the end of the list; both
  ends are clipped to the list, and the slice is empty when \<open>stop\<close> is not beyond 1.
\<close>

definition py_slice_from1 :: "'a list \<Rightarrow> int \<Rightarrow> 'a list" where
  "py_slice_from1 xs stop =
     (let n = int (length xs);
          hi = (if stop < 0 then max (n + stop) 0 else min stop n)
      in take (nat hi - 1) (drop 1 xs))"

text \<open>Truthiness of an optional integer: \<open>None\<close> and \<open>0\<close> are false.\<close>

definition truthy :: "int option \<Rightarrow> bool" where
  "truthy k = (case k of None \<Rightarrow> False | Some v \<Rightarrow> v \<noteq> 0)"

section \<open>\<open>split_space\<close>\<close>

text \<open>
  \<^verbatim>\<open>
  def split_space(start, end, count):
      size = end - start
      return list(range(start, end, (size + 1) // (count + 1)))[1 : count + 1]
  \<close>
  Python's \<open>//\<close> on integers is floor division, which is \<open>div\<close> on \<^typ>\<open>int\<close>; it raises
  \<open>ZeroDivisionError\<close> for a zero divisor, before \<open>range\<close> is called.
\<close>

definition split_space :: "int \<Rightarrow> int \<Rightarrow> int \<Rightarrow> error + int list" where
  "split_space start end' count =
     (let size = end' - start in
      if count + 1 = 0 then Inl ZeroDivisionError
      else case py_range start end' ((size + 1) div (count + 1)) of
             Inl e \<Rightarrow> Inl e
           | Inr xs \<Rightarrow> Inr (py_slice_from1 xs (count + 1)))"

section \<open>The database capability\<close>

text \<open>
  The modules \<open>data_diff/database.py\<close> and \<open>data_diff/sql.py\<close> (\<open>Database.query\<close>,
  \<open>Select\<close>, \<open>Count\<close>, \<open>Checksum\<close>, \<open>Min\<close>, \<open>Max\<close>, \<open>Compare\<close>) are not among the sources,
  so a database is a parameter of the model: the decoded answers it gives to the three
  selects a segment sends.  The \<open>where\<close> list of every select is
  \<open>_make_key_range() + _make_update_range()\<close>; the table, the columns and the update range
  never change during a diff, so each answer is a function of the two keys of the key
  range (\<open>start_key <= key\<close> when \<open>start_key\<close> is not \<open>None\<close>, \<open>key < end_key\<close> when
  \<open>end_key\<close> is not \<open>None\<close>).  A row is its key (the first relevant column) and the rest
  of its relevant columns, a value of type \<open>'c\<close>.
\<close>

type_synonym 'c row = "int \<times> 'c"

record 'c Database =
  query_min_max :: "int option \<Rightarrow> int option \<Rightarrow> int option \<times> int option"
  query_count_checksum :: "int option \<Rightarrow> int option \<Rightarrow> int option \<times> int option"
  query_rows :: "int option \<Rightarrow> int option \<Rightarrow> 'c row list"

text \<open>
  Modelled from the spec: the database that holds a given table (\<open>Database.query\<close> is not
  among the sources).  \<open>tbl\<close> is the table's rows in canonical column order, \<open>cks\<close> the
  value of the driver's \<open>Checksum\<close> aggregate on a non-empty bag of rows.  The answers are
  those of section 4.3 of the specification: \<open>Min(key), Max(key)\<close> (both \<open>NULL\<close> when no row
  is selected), \<open>Count(), Checksum(columns)\<close> (\<open>(0, NULL)\<close> on an empty segment) and the
  selected rows.
\<close>

definition key_filter :: "int option \<Rightarrow> int option \<Rightarrow> 'c row list \<Rightarrow> 'c row list" where
  "key_filter s e tbl =
     filter (\<lambda>r. (case s of None \<Rightarrow> True | Some lo \<Rightarrow> lo \<le> fst r) \<and>
                 (case e of None \<Rightarrow> True | Some hi \<Rightarrow> fst r < hi)) tbl"

definition table_db :: "'c row list \<Rightarrow> ('c row list \<Rightarrow> int option) \<Rightarrow> 'c Database" where
  "table_db tbl cks =
     \<lparr> query_min_max = (\<lambda>s e.
          case map fst (key_filter s e tbl) of
            [] \<Rightarrow> (None, None)
          | k # ks \<Rightarrow> (Some (fold min ks k), Some (fold max ks k))),
       query_count_checksum = (\<lambda>s e.
          let rs = key_filter s e tbl
          in (Some (int (length rs)), if rs = [] then None else cks rs)),
       query_rows = (\<lambda>s e. key_filter s e tbl) \<rparr>"

section \<open>\<open>TableSegment\<close>\<close>

text \<open>
  The dataclass \<open>TableSegment\<close>, field by field.  Timestamps (\<open>DbTime\<close>) are opaque to the
  differ and are kept as integers.
\<close>

record 'c TableSegment =
  database :: "'c Database"
  table_path :: "string list"
  key_column :: string
  update_column :: "string option"
  extra_columns :: "string list"
  start_key :: "int option"
  end_key :: "int option"
  min_time :: "int option"
  max_time :: "int option"

text \<open>\<open>is_bounded\<close>: both keys are not \<open>None\<close>.\<close>

definition is_bounded :: "'c TableSegment \<Rightarrow> bool" where
  "is_bounded t = (start_key t \<noteq> None \<and> end_key t \<noteq> None)"

text \<open>
  \<open>new(start_key=s, end_key=e)\<close> is \<open>self.replace(start_key=s, end_key=e)\<close>: a copy of the
  segment with the two keys replaced.  (The copy is built by the dataclass constructor;
  its \<open>__post_init__\<close> check reads only \<open>update_column\<close>, \<open>min_time\<close> and \<open>max_time\<close>,
  which \<open>new\<close> is never asked to change here.)
\<close>

definition new :: "'c TableSegment \<Rightarrow> int option \<Rightarrow> int option \<Rightarrow> 'c TableSegment" where
  "new t s e = t\<lparr>start_key := s, end_key := e\<rparr>"

text \<open>
  The constructor \<open>TableSegment(database, table_path, key_column)\<close> with the defaults of
  the dataclass for the other fields.
\<close>

definition table_segment :: "'c Database \<Rightarrow> string list \<Rightarrow> string \<Rightarrow> 'c TableSegment" where
  "table_segment db path key =
     \<lparr> database = db, table_path = path, key_column = key, update_column = None,
       extra_columns = [], start_key = None, end_key = None, min_time = None, max_time = None \<rparr>"

text \<open>
  \<^verbatim>\<open>
  def get_values(self) -> list:
      select = self._make_select(columns=self._relevant_columns)
      return self.database.query(select, List[Tuple])
  \<close>
\<close>

definition get_values :: "'c TableSegment \<Rightarrow> 'c row list" where
  "get_values t = query_rows (database t) (start_key t) (end_key t)"

text \<open>
  \<^verbatim>\<open>
  def choose_checkpoints(self, count):
      assert self.is_bounded
      return split_space(self.start_key, self.end_key, count)
  \<close>
\<close>

definition choose_checkpoints :: "'c TableSegment \<Rightarrow> int \<Rightarrow> error + int list" where
  "choose_checkpoints t count =
     (case (start_key t, end_key t) of
        (Some s, Some e) \<Rightarrow> split_space s e count
      | _ \<Rightarrow> Inl AssertionError)"

text \<open>
  \<^verbatim>\<open>
  def segment_by_checkpoints(self, checkpoints):
      if self.start_key and self.end_key:
          assert all(self.start_key <= c < self.end_key for c in checkpoints)
      checkpoints.sort()
      positions = [self.start_key] + checkpoints + [self.end_key]
      ranges = list(zip(positions[:-1], positions[1:]))
      tables = [self.new(start_key=s, end_key=e) for s, e in ranges]
      return tables
  \<close>
  The guard is a truthiness test, so it is false for a key that is \<open>None\<close> and for a key
  that is \<open>0\<close>.  \<open>checkpoints.sort()\<close> sorts the caller's list in place, so the model
  returns the three objects the call leaves behind: the segment itself, the caller's
  list and the returned tables.
\<close>

definition segment_by_checkpoints ::
  "'c TableSegment \<Rightarrow> int list \<Rightarrow> error + ('c TableSegment \<times> int list \<times> 'c TableSegment list)" where
  "segment_by_checkpoints t checkpoints =
     (if truthy (start_key t) \<and> truthy (end_key t) \<and>
         \<not> list_all (\<lambda>c. the (start_key t) \<le> c \<and> c < the (end_key t)) checkpoints
      then Inl AssertionError
      else
        let checkpoints' = sort checkpoints;
            positions = [start_key t] @ map Some checkpoints' @ [end_key t];
            ranges = zip (butlast positions) (tl positions);
            tables = map (\<lambda>(s, e). new t s e) ranges
        in Inr (t, checkpoints', tables))"

text \<open>
  \<^verbatim>\<open>
  def count_and_checksum(self):
      count, checksum = self.database.query(
          self._make_select(columns=[Count(), Checksum(self._relevant_columns)]), tuple)
      ...
      return count or 0, checksum
  \<close>
  (The timing of the query only produces a log line.)
\<close>

definition count_and_checksum :: "'c TableSegment \<Rightarrow> int \<times> int option" where
  "count_and_checksum t =
     (case query_count_checksum (database t) (start_key t) (end_key t) of
        (count, checksum) \<Rightarrow> ((case count of None \<Rightarrow> 0 | Some c \<Rightarrow> c), checksum))"


text \<open>
  The checkpoint formula in the words of the specification: with \<open>size = endKey - startKey\<close>
  and \<open>step\<close> the ceiling of \<open>(size + 1) / (n + 1)\<close>, the values \<open>startKey + step\<close>,
  \<open>startKey + 2 * step\<close>, ... cut to the first \<open>n\<close> values strictly below \<open>endKey\<close>.
  \<open>checkpoints_of_step\<close> is that sequence for a given step.
\<close>

definition checkpoints_of_step :: "int \<Rightarrow> int \<Rightarrow> nat \<Rightarrow> int \<Rightarrow> int list" where
  "checkpoints_of_step s e n step =
     takeWhile (\<lambda>c. c < e) (map (\<lambda>i. s + int i * step) [1..<Suc n])"

definition ceiling_div :: "int \<Rightarrow> int \<Rightarrow> int" where
  "ceiling_div a b = - ((- a) div b)"

definition spec_checkpoints :: "int \<Rightarrow> int \<Rightarrow> nat \<Rightarrow> int list" where
  "spec_checkpoints s e n = checkpoints_of_step s e n (ceiling_div (e - s + 1) (int n + 1))"

section \<open>\<open>diff_sets\<close>\<close>

text \<open>
  \<^verbatim>\<open>
  def diff_sets(a: set, b: set) -> iter:
      s1 = set(a)
      s2 = set(b)
      d = defaultdict(list)
      for i in s1 - s2:
          d[i[0]].append(("+", i))
      for i in s2 - s1:
          d[i[0]].append(("-", i))
      for k, v in sorted(d.items(), key=lambda i: i[0]):
          yield from v
  \<close>
  A diff event is the pair of the sign (\<open>"+"\<close> or \<open>"-"\<close>) and the row.  The dictionary
  \<open>d\<close> is an association list in insertion order, as a Python \<open>dict\<close> is; \<open>d_append\<close> is
  \<open>d[k].append(v)\<close> on a \<open>defaultdict(list)\<close>.  The order in which Python iterates over a
  set is not fixed by the language, so it is a parameter \<open>iter\<close>: \<open>iter xs\<close> is the order
  in which the set holding the elements of \<open>xs\<close> is iterated; \<open>set_iteration iter\<close> says
  that it lists every element of the set once.  \<open>sorted\<close> is stable, as \<open>sort_key\<close> is.
\<close>

type_synonym 'c event = "string \<times> 'c row"

fun d_append :: "('k \<times> 'v list) list \<Rightarrow> 'k \<Rightarrow> 'v \<Rightarrow> ('k \<times> 'v list) list" where
  "d_append [] k v = [(k, [v])]"
| "d_append ((k', vs) # d) k v =
     (if k' = k then (k', vs @ [v]) # d else (k', vs) # d_append d k v)"

definition set_iteration :: "('a list \<Rightarrow> 'a list) \<Rightarrow> bool" where
  "set_iteration iter = (\<forall>xs. set (iter xs) = set xs \<and> distinct (iter xs))"

definition diff_sets ::
  "('c row list \<Rightarrow> 'c row list) \<Rightarrow> 'c row list \<Rightarrow> 'c row list \<Rightarrow> 'c event list" where
  "diff_sets iter a b =
     (let d1 = fold (\<lambda>i d. d_append d (fst i) (''+'', i)) (iter (filter (\<lambda>i. i \<notin> set b) a)) [];
          d2 = fold (\<lambda>i d. d_append d (fst i) (''-'', i)) (iter (filter (\<lambda>i. i \<notin> set a) b)) d1
      in concat (map snd (sort_key fst d2)))"

section \<open>\<open>TableDiffer\<close>\<close>

text \<open>
  The dataclass \<open>TableDiffer\<close>, with its six fields in the order of the class body.  The
  field \<open>stats: dict = {}\<close> is a field of the instance like the others.  Its default is a
  mutable value: the decorator is the \<open>dataclass\<close> of \<open>runtype\<close>, a library outside these
  sources, which gives every instance it constructs a copy of such a default of its own (the
  \<open>dataclass\<close> of the standard library refuses a dictionary as a default).  So a differ
  that was constructed without a \<open>stats\<close> argument starts with an empty dictionary that no
  other differ can reach.  No method assigns \<open>self.stats\<close>; the methods only update the
  dictionary it names.
\<close>

type_synonym stats = "string \<Rightarrow> int option"

record TableDiffer =
  bisection_factor :: int
  bisection_threshold :: int
  debug :: bool
  threaded :: bool
  stats :: stats
  max_threadpool_size :: "int option"


text \<open>\<open>self.stats.get("table1_count", 0)\<close>\<close>

definition table1_count :: "stats \<Rightarrow> int" where
  "table1_count st = (case st ''table1_count'' of None \<Rightarrow> 0 | Some v \<Rightarrow> v)"

text \<open>
  \<open>_bisect_and_diff_tables\<close> and \<open>_diff_tables\<close> are generators that call each other.
  Consuming a generator yields a list of events and then either ends or raises, so its
  run is a pair \<open>(events, None)\<close> or \<open>(events, Some error)\<close>, together with the statistics
  it leaves.  The recursion need not end, so the model takes fuel, the number of nested
  calls of \<open>_bisect_and_diff_tables\<close> it may make: the value \<open>None\<close> says that the fuel
  did not suffice.  (Isabelle names cannot start with an underscore: \<open>priv_\<close> stands for
  the leading underscore of the two private methods.)

  \<^verbatim>\<open>
  def _bisect_and_diff_tables(self, table1, table2, level=0, max_rows=None):
      assert table1.is_bounded and table2.is_bounded
      if max_rows is None:
          max_rows = table1.end_key - table1.start_key
      if max_rows < self.bisection_threshold:
          rows1, rows2 = self._threaded_call("get_values", [table1, table2])
          diff = list(diff_sets(rows1, rows2))
          yield from diff
          return
      checkpoints = table1.choose_checkpoints(self.bisection_factor - 1)
      segmented1 = table1.segment_by_checkpoints(checkpoints)
      segmented2 = table2.segment_by_checkpoints(checkpoints)
      diff_iters = [
          self._diff_tables(t1, t2, level + 1, i + 1, len(segmented1))
          for i, (t1, t2) in enumerate(safezip(segmented1, segmented2))
      ]
      for res in self._thread_map(list, diff_iters):
          yield from res

  def _diff_tables(self, table1, table2, level=0, segment_index=None, segment_count=None):
      logger.info(... f"size: {table2.end_key-table1.start_key}")
      (count1, checksum1), (count2, checksum2) = self._threaded_call("count_and_checksum", [table1, table2])
      if count1 == 0 and count2 == 0:
          assert checksum1 is None and checksum2 is None
          return
      if level == 1:
          self.stats["table1_count"] = self.stats.get("table1_count", 0) + count1
      if checksum1 != checksum2:
          yield from self._bisect_and_diff_tables(table1, table2, level=level, max_rows=max(count1, count2))
  \<close>
  \<open>diff_iters\<close> is the final loop of \<open>_bisect_and_diff_tables\<close>: \<open>_thread_map\<close> hands
  out \<open>list(child)\<close> for each child generator in the order of the list (also when the pool
  runs them concurrently), so a child that raises contributes no event and ends the
  stream with its exception.  The children run one after the other here, which is what
  \<open>threaded = False\<close> does; the pool of \<open>threaded = True\<close> yields the same events, but it
  starts every child, also after one that raises, and the children then update the
  statistics from several threads.  The argument \<open>st\<close> is what the dictionary \<open>self.stats\<close>
  holds, and the result carries what it holds at the end.  \<open>safezip\<close> asserts that its
  arguments have the same length.
  The only part of the log lines that can fail is the subtraction in the f-string of
  \<open>_diff_tables\<close>, a \<open>TypeError\<close> when one of the two keys is \<open>None\<close>; \<open>segment_index\<close>
  and \<open>segment_count\<close> are only logged and are left out.
\<close>

type_synonym 'c run = "('c event list \<times> error option) \<times> stats"

function (sequential) priv_bisect_and_diff_tables ::
    "nat \<Rightarrow> ('c row list \<Rightarrow> 'c row list) \<Rightarrow> TableDiffer \<Rightarrow> 'c TableSegment \<Rightarrow> 'c TableSegment \<Rightarrow>
     nat \<Rightarrow> int option \<Rightarrow> stats \<Rightarrow> 'c run option"
  and diff_iters ::
    "nat \<Rightarrow> ('c row list \<Rightarrow> 'c row list) \<Rightarrow> TableDiffer \<Rightarrow> ('c TableSegment \<times> 'c TableSegment) list \<Rightarrow>
     nat \<Rightarrow> stats \<Rightarrow> 'c run option"
  and priv_diff_tables ::
    "nat \<Rightarrow> ('c row list \<Rightarrow> 'c row list) \<Rightarrow> TableDiffer \<Rightarrow> 'c TableSegment \<Rightarrow> 'c TableSegment \<Rightarrow>
     nat \<Rightarrow> stats \<Rightarrow> 'c run option"
where
  "priv_bisect_and_diff_tables 0 iter d table1 table2 level max_rows st = None"
| "priv_bisect_and_diff_tables (Suc fuel) iter d table1 table2 level max_rows st =
     (if \<not> (is_bounded table1 \<and> is_bounded table2) then Some (([], Some AssertionError), st)
      else
        let max_rows' = (case max_rows of
                           None \<Rightarrow> the (end_key table1) - the (start_key table1)
                         | Some m \<Rightarrow> m)
        in
        if max_rows' < bisection_threshold d then
          Some ((diff_sets iter (get_values table1) (get_values table2), None), st)
        else
          case choose_checkpoints table1 (bisection_factor d - 1) of
            Inl e \<Rightarrow> Some (([], Some e), st)
          | Inr checkpoints \<Rightarrow>
              (case segment_by_checkpoints table1 checkpoints of
                 Inl e \<Rightarrow> Some (([], Some e), st)
               | Inr (_, checkpoints1, segmented1) \<Rightarrow>
                   (case segment_by_checkpoints table2 checkpoints1 of
                      Inl e \<Rightarrow> Some (([], Some e), st)
                    | Inr (_, _, segmented2) \<Rightarrow>
                        if length segmented1 \<noteq> length segmented2
                        then Some (([], Some AssertionError), st)
                        else diff_iters fuel iter d (zip segmented1 segmented2) (level + 1) st)))"
| "diff_iters fuel iter d [] level st = Some (([], None), st)"
| "diff_iters fuel iter d ((t1, t2) # rest) level st =
     (case priv_diff_tables fuel iter d t1 t2 level st of
        None \<Rightarrow> None
      | Some ((res, Some e), st') \<Rightarrow> Some (([], Some e), st')
      | Some ((res, None), st') \<Rightarrow>
          (case diff_iters fuel iter d rest level st' of
             None \<Rightarrow> None
           | Some ((evs, err), st'') \<Rightarrow> Some ((res @ evs, err), st'')))"
| "priv_diff_tables fuel iter d table1 table2 level st =
     (if end_key table2 = None \<or> start_key table1 = None then Some (([], Some TypeError), st)
      else
        case (count_and_checksum table1, count_and_checksum table2) of
          ((count1, checksum1), (count2, checksum2)) \<Rightarrow>
            if count1 = 0 \<and> count2 = 0 then
              (if checksum1 = None \<and> checksum2 = None then Some (([], None), st)
               else Some (([], Some AssertionError), st))
            else
              let st' = (if level = 1
                         then st(''table1_count'' \<mapsto> table1_count st + count1)
                         else st)
              in
              if checksum1 \<noteq> checksum2 then
                priv_bisect_and_diff_tables fuel iter d table1 table2 level
                  (Some (max count1 count2)) st'
              else Some (([], None), st'))"
  by pat_completeness auto
termination
  by (relation "inv_image (less_than <*lex*> less_than <*lex*> less_than)
     (\<lambda>x. case x of
        Inl (fuel, _) \<Rightarrow> (fuel, 0::nat, 0::nat)
      | Inr (Inl (fuel, _, _, ps, _)) \<Rightarrow> (fuel, 2, length ps)
      | Inr (Inr (fuel, _)) \<Rightarrow> (fuel, 1, 0))") auto



section \<open>Auxiliary notions of the proofs\<close>

text \<open>
  \<open>d_get d k\<close> is the list a \<open>defaultdict(list)\<close> holds for the key \<open>k\<close>; \<open>key_group P M k\<close>
  is the group of events of key \<open>k\<close>: the \<open>"+"\<close> events of the rows of \<open>P\<close> with that key,
  then the \<open>"-"\<close> events of the rows of \<open>M\<close> with that key.
\<close>

definition d_get :: "('k \<times> 'v list) list \<Rightarrow> 'k \<Rightarrow> 'v list" where
  "d_get d k = (case map_of d k of None \<Rightarrow> [] | Some vs \<Rightarrow> vs)"

definition key_group :: "'c row list \<Rightarrow> 'c row list \<Rightarrow> int \<Rightarrow> 'c event list" where
  "key_group P M k = map (Pair ''+'') (filter (\<lambda>i. fst i = k) P) @
                     map (Pair ''-'') (filter (\<lambda>i. fst i = k) M)"


definition seg_rows :: "'c row list \<Rightarrow> int \<Rightarrow> int \<Rightarrow> 'c row list" where
  "seg_rows A s e = key_filter (Some s) (Some e) A"

definition seg_events :: "'c row list \<Rightarrow> 'c row list \<Rightarrow> int \<Rightarrow> int \<Rightarrow> 'c event set" where
  "seg_events A B s e =
     Pair ''+'' ` (set (seg_rows A s e) - set (seg_rows B s e)) \<union>
     Pair ''-'' ` (set (seg_rows B s e) - set (seg_rows A s e))"





section \<open>Example values\<close>

text \<open>
  Concrete inputs for the instances below: a differ with \<open>bisection_factor = 2\<close> and
  \<open>bisection_threshold = 3\<close> (the smallest legal pair), tables whose rows are a key and a
  string, an additive checksum (the sum over the rows of the key plus the length of the
  string, as a \<open>SUM\<close> of per-row hashes is), and a checksum that is the same for all bags
  of rows.
\<close>

definition small_differ :: TableDiffer where
  "small_differ = \<lparr> bisection_factor = 2, bisection_threshold = 3, debug = False,
                     threaded = True, stats = Map.empty, max_threadpool_size = None \<rparr>"

definition sum_checksum :: "string row list \<Rightarrow> int option" where
  "sum_checksum rs = Some (sum_list (map (\<lambda>r. fst r + int (length (snd r))) rs))"

definition table_of :: "string row list \<Rightarrow> string TableSegment" where
  "table_of tbl = table_segment (table_db tbl sum_checksum) [''t''] ''id''"

section \<open>Checkpoints\<close>

lemma take_py_range_up:
  "0 < step \<Longrightarrow>
   take n (py_range_up i e step) = takeWhile (\<lambda>c. c < e) (map (\<lambda>j. i + int j * step) [0..<n])"
proof (induction n arbitrary: i)
  case 0
  then show ?case by simp
next
  case (Suc n)
  have shift: "map (\<lambda>j. i + int j * step) [0..<Suc n] =
      i # map (\<lambda>j. (i + step) + int j * step) [0..<n]"
    by (simp add: upt_conv_Cons map_Suc_upt [symmetric] algebra_simps del: upt_Suc)
  show ?case
  proof (cases "i < e")
    case True
    with Suc show ?thesis
      by (subst py_range_up.simps, subst shift) simp
  next
    case False
    then show ?thesis
      by (subst py_range_up.simps, subst shift) simp
  qed
qed

lemma slice_take: "py_slice_from1 xs (int n + 1) = take n (drop 1 xs)"
proof -
  have "nat (min (int n + 1) (int (length xs))) - 1 = min n (length xs - 1)"
    by (auto simp: min_def nat_add_distrib)
  then show ?thesis
    unfolding py_slice_from1_def Let_def by (simp add: min_def)
qed

lemma take_py_range_down:
  "step < 0 \<Longrightarrow>
   take n (py_range_down i e step) = takeWhile (\<lambda>c. e < c) (map (\<lambda>j. i + int j * step) [0..<n])"
proof (induction n arbitrary: i)
  case 0
  then show ?case by simp
next
  case (Suc n)
  have shift: "map (\<lambda>j. i + int j * step) [0..<Suc n] =
      i # map (\<lambda>j. (i + step) + int j * step) [0..<n]"
    by (simp add: upt_conv_Cons map_Suc_upt [symmetric] algebra_simps del: upt_Suc)
  show ?case
  proof (cases "e < i")
    case True
    with Suc show ?thesis
      by (subst py_range_down.simps, subst shift) simp
  next
    case False
    then show ?thesis
      by (subst py_range_down.simps, subst shift) simp
  qed
qed

lemma tl_py_range_up:
  "0 < step \<Longrightarrow> take n (drop 1 (py_range_up s e step)) =
     takeWhile (\<lambda>c. c < e) (map (\<lambda>i. s + int i * step) [1..<Suc n])"
proof (cases "s < e")
  case True
  assume st: "0 < step"
  have "drop 1 (py_range_up s e step) = py_range_up (s + step) e step"
    using True st by (subst py_range_up.simps) simp
  moreover have "map (\<lambda>i. s + int i * step) [1..<Suc n] = map (\<lambda>j. (s + step) + int j * step) [0..<n]"
    by (simp add: map_Suc_upt [symmetric] algebra_simps del: upt_Suc)
  ultimately show ?thesis using take_py_range_up [OF st] by simp
next
  case False
  assume st: "0 < step"
  have "py_range_up s e step = []" using False by (subst py_range_up.simps) simp
  moreover have "takeWhile (\<lambda>c. c < e) (map (\<lambda>i. s + int i * step) [1..<Suc n]) = []"
  proof (cases n)
    case 0 then show ?thesis by simp
  next
    case (Suc m)
    have "\<not> s + step < e" using False st by simp
    then show ?thesis using Suc by (simp add: upt_conv_Cons del: upt_Suc)
  qed
  ultimately show ?thesis by simp
qed

lemma tl_py_range_down:
  "step < 0 \<Longrightarrow> take n (drop 1 (py_range_down s e step)) =
     takeWhile (\<lambda>c. e < c) (map (\<lambda>i. s + int i * step) [1..<Suc n])"
proof (cases "e < s")
  case True
  assume st: "step < 0"
  have "drop 1 (py_range_down s e step) = py_range_down (s + step) e step"
    using True st by (subst py_range_down.simps) simp
  moreover have "map (\<lambda>i. s + int i * step) [1..<Suc n] = map (\<lambda>j. (s + step) + int j * step) [0..<n]"
    by (simp add: map_Suc_upt [symmetric] algebra_simps del: upt_Suc)
  ultimately show ?thesis using take_py_range_down [OF st] by simp
next
  case False
  assume st: "step < 0"
  have "py_range_down s e step = []" using False by (subst py_range_down.simps) simp
  moreover have "takeWhile (\<lambda>c. e < c) (map (\<lambda>i. s + int i * step) [1..<Suc n]) = []"
  proof (cases n)
    case 0 then show ?thesis by simp
  next
    case (Suc m)
    have "\<not> e < s + step" using False st by simp
    then show ?thesis using Suc by (simp add: upt_conv_Cons del: upt_Suc)
  qed
  ultimately show ?thesis by simp
qed

lemma split_space_up:
  "0 < (e - s + 1) div (int n + 1) \<Longrightarrow>
   split_space s e (int n) = Inr (checkpoints_of_step s e n ((e - s + 1) div (int n + 1)))"
  using tl_py_range_up [of "(e - s + 1) div (int n + 1)" n s e]
  by (simp add: split_space_def py_range_def slice_take checkpoints_of_step_def Let_def)

lemma split_space_zero:
  "(e - s + 1) div (int n + 1) = 0 \<Longrightarrow>
   split_space s e (int n) = Inl (ValueError ''range() arg 3 must not be zero'')"
  by (simp add: split_space_def py_range_def Let_def)

lemma split_space_down:
  "(e - s + 1) div (int n + 1) < 0 \<Longrightarrow>
   split_space s e (int n) =
     Inr (takeWhile (\<lambda>c. e < c) (map (\<lambda>i. s + int i * ((e - s + 1) div (int n + 1))) [1..<Suc n]))"
  using tl_py_range_down [of "(e - s + 1) div (int n + 1)" n s e]
  by (simp add: split_space_def py_range_def slice_take Let_def)


text \<open>
  Claim C3, as the code has it.  \<open>choose_checkpoints\<close> requires a bounded segment (the
  assertion fails otherwise).  For a bounded segment \<open>[s, e)\<close> and \<open>n \<ge> 1\<close> the step is the
  floor (not the ceiling) of \<open>(size + 1) / (n + 1)\<close> with \<open>size = e - s\<close>.  When the step is
  positive the result is \<open>s + step\<close>, \<open>s + 2 * step\<close>, ... cut to the first \<open>n\<close> values
  strictly below \<open>e\<close>; when the step is zero (\<open>0 \<le> size + 1 < n + 1\<close>) \<open>range\<close> raises
  \<open>ValueError\<close>; when it is negative (\<open>e < s - 1\<close>) the values descend from \<open>s + step\<close>
  and are cut to the first \<open>n\<close> strictly above \<open>e\<close>.
\<close>

theorem choose_checkpoints_floor_step:
  fixes t :: "'c TableSegment" and n :: nat
  shows "(\<not> is_bounded t \<longrightarrow> choose_checkpoints t (int n) = Inl AssertionError) \<and>
    (start_key t = Some s \<and> end_key t = Some e \<and> 1 \<le> n \<longrightarrow>
      (let step = (e - s + 1) div (int n + 1) in
        (0 < step \<longrightarrow> choose_checkpoints t (int n) = Inr (checkpoints_of_step s e n step)) \<and>
        (step = 0 \<longrightarrow>
           choose_checkpoints t (int n) = Inl (ValueError ''range() arg 3 must not be zero'')) \<and>
        (step < 0 \<longrightarrow>
           choose_checkpoints t (int n) =
             Inr (takeWhile (\<lambda>c. e < c) (map (\<lambda>i. s + int i * step) [1..<Suc n])))))"
proof (intro conjI impI)
  assume "\<not> is_bounded t"
  then show "choose_checkpoints t (int n) = Inl AssertionError"
    by (auto simp: is_bounded_def choose_checkpoints_def split: option.splits)
next
  assume b: "start_key t = Some s \<and> end_key t = Some e \<and> 1 \<le> n"
  then have cc: "choose_checkpoints t (int n) = split_space s e (int n)"
    by (simp add: choose_checkpoints_def)
  show "let step = (e - s + 1) div (int n + 1) in
        (0 < step \<longrightarrow> choose_checkpoints t (int n) = Inr (checkpoints_of_step s e n step)) \<and>
        (step = 0 \<longrightarrow>
           choose_checkpoints t (int n) = Inl (ValueError ''range() arg 3 must not be zero'')) \<and>
        (step < 0 \<longrightarrow>
           choose_checkpoints t (int n) =
             Inr (takeWhile (\<lambda>c. e < c) (map (\<lambda>i. s + int i * step) [1..<Suc n])))"
    unfolding Let_def cc
    using split_space_up [of e s n] split_space_zero [of e s n] split_space_down [of e s n]
    by blast
qed

theorem choose_checkpoints_floor_step_witness:
  "choose_checkpoints (new (table_segment (table_db [] (\<lambda>rs. None) :: unit Database) [''t''] ''id'') (Some 0) (Some 10)) 2
     = Inr [3, 6 :: int] \<and>
   choose_checkpoints (new (table_segment (table_db [] (\<lambda>rs. None) :: unit Database) [''t''] ''id'') (Some 0) (Some 1)) 2
     = Inl (ValueError ''range() arg 3 must not be zero'') \<and>
   choose_checkpoints (table_segment (table_db [] (\<lambda>rs. None) :: unit Database) [''t''] ''id'') 2 = Inl AssertionError"
proof -
  let ?t = "table_segment (table_db [] (\<lambda>rs. None) :: unit Database) [''t''] ''id''"
  have a: "choose_checkpoints (new ?t (Some 0) (Some 10)) (int 2) = Inr [3, 6]"
    using choose_checkpoints_floor_step [of "new ?t (Some 0) (Some 10)" 2 0 10]
    by (simp add: new_def table_segment_def checkpoints_of_step_def upt_conv_Cons)
  have b: "choose_checkpoints (new ?t (Some 0) (Some 1)) (int 2)
      = Inl (ValueError ''range() arg 3 must not be zero'')"
    using choose_checkpoints_floor_step [of "new ?t (Some 0) (Some 1)" 2 0 1]
    by (simp add: new_def table_segment_def)
  have c: "choose_checkpoints ?t (int 2) = Inl AssertionError"
    using choose_checkpoints_floor_step [of ?t 2]
    by (simp add: is_bounded_def table_segment_def)
  from a b c show ?thesis by simp
qed

text \<open>
  The ceiling of the specification against the code: for the segment \<open>[0, 10)\<close> and
  \<open>n = 2\<close> the step of the code is \<open>11 // 3 = 3\<close> and the checkpoints are \<open>[3, 6]\<close>; the
  ceiling would be \<open>4\<close>, with the checkpoints \<open>[4, 8]\<close>.
\<close>

theorem choose_checkpoints_ceiling_counterexample:
  "choose_checkpoints (new (table_segment (table_db [] (\<lambda>rs. None) :: unit Database) [''t''] ''id'') (Some 0) (Some 10)) 2
     = Inr [3, 6 :: int] \<and>
   spec_checkpoints 0 10 2 = [4, 8] \<and>
   choose_checkpoints (new (table_segment (table_db [] (\<lambda>rs. None) :: unit Database) [''t''] ''id'') (Some 0) (Some 10)) 2
     \<noteq> Inr (spec_checkpoints 0 10 2)"
proof -
  let ?t = "new (table_segment (table_db [] (\<lambda>rs. None) :: unit Database) [''t''] ''id'')
              (Some 0) (Some 10)"
  have r: "py_range_up 0 10 3 = [0, 3, 6, 9]"
    by (simp add: py_range_up.simps)
  have a: "choose_checkpoints ?t 2 = Inr [3, 6]"
    by (simp add: choose_checkpoints_def new_def table_segment_def split_space_def py_range_def
        r py_slice_from1_def)
  have b: "spec_checkpoints 0 10 2 = [4, 8]"
    by (simp add: spec_checkpoints_def checkpoints_of_step_def ceiling_div_def upt_conv_Cons)
  from a b show ?thesis by simp
qed

section \<open>Segmentation\<close>

lemma segment_by_checkpoints_ok:
  assumes "\<not> (truthy (start_key t) \<and> truthy (end_key t)) \<or>
           list_all (\<lambda>c. the (start_key t) \<le> c \<and> c < the (end_key t)) cs"
  shows "segment_by_checkpoints t cs =
     Inr (t, sort cs, map (\<lambda>i. new t ((start_key t # map Some (sort cs)) ! i)
                                   ((map Some (sort cs) @ [end_key t]) ! i)) [0..<Suc (length cs)])"
proof -
  let ?ps = "[start_key t] @ map Some (sort cs) @ [end_key t]"
  have bl: "butlast ?ps = start_key t # map Some (sort cs)"
    by (simp add: butlast_append)
  have tl: "tl ?ps = map Some (sort cs) @ [end_key t]" by simp
  have "map (\<lambda>(s, e). new t s e) (zip (butlast ?ps) (tl ?ps)) =
     map (\<lambda>i. new t ((start_key t # map Some (sort cs)) ! i)
                      ((map Some (sort cs) @ [end_key t]) ! i)) [0..<Suc (length cs)]"
    unfolding bl tl by (rule nth_equalityI) (simp_all del: upt_Suc)
  with assms show ?thesis
    unfolding segment_by_checkpoints_def Let_def by auto
qed







lemma chain_nth:
  "i \<le> length cs \<Longrightarrow> (s # cs) ! i = (s # cs @ [e]) ! i"
  "i \<le> length cs \<Longrightarrow> (cs @ [e]) ! i = (s # cs @ [e]) ! Suc i"
  by (simp_all add: nth_append nth_Cons split: nat.splits)

text \<open>
  Claim C7.  For a bounded segment \<open>[s, e)\<close> and checkpoints that all lie in \<open>[s, e)\<close>,
  \<open>segment_by_checkpoints\<close> does not raise and returns \<open>n + 1\<close> children for \<open>n\<close>
  checkpoints.  Child \<open>i\<close> is a copy of the segment whose keys are the positions \<open>i\<close> and
  \<open>i + 1\<close> of the chain \<open>s, c\<^sub>1, ..., c\<^sub>n, e\<close> of the sorted checkpoints: the first child
  starts at \<open>s\<close>, the last one ends at \<open>e\<close>, and each child ends where the next one
  starts.  With at least one checkpoint every child is a forward range inside \<open>[s, e]\<close>.
  The segment itself is the one that was passed (the first component of the result);
  the caller's list of checkpoints is left sorted.
\<close>

theorem segment_by_checkpoints_contiguous:
  assumes s: "start_key t = Some s" and e: "end_key t = Some e"
    and rng: "\<forall>c\<in>set cs. s \<le> c \<and> c < e"
  shows "\<exists>segs. segment_by_checkpoints t cs = Inr (t, sort cs, segs) \<and>
     length segs = length cs + 1 \<and>
     (\<forall>i<length segs. segs ! i = t\<lparr>start_key := Some ((s # sort cs) ! i),
                                      end_key := Some ((sort cs @ [e]) ! i)\<rparr>) \<and>
     start_key (hd segs) = Some s \<and> end_key (last segs) = Some e \<and>
     (\<forall>i. Suc i < length segs \<longrightarrow> end_key (segs ! i) = start_key (segs ! Suc i)) \<and>
     (cs \<noteq> [] \<longrightarrow>
       (\<forall>i<length segs. \<exists>a b. start_key (segs ! i) = Some a \<and> end_key (segs ! i) = Some b \<and>
                                s \<le> a \<and> a \<le> b \<and> b \<le> e))"
proof -
  let ?cs = "sort cs"
  let ?segs = "map (\<lambda>i. new t ((start_key t # map Some ?cs) ! i)
                              ((map Some ?cs @ [end_key t]) ! i)) [0..<Suc (length cs)]"
  let ?ps = "s # ?cs @ [e]"
  have guard: "list_all (\<lambda>c. the (start_key t) \<le> c \<and> c < the (end_key t)) cs"
    using rng s e by (simp add: list_all_iff)
  have res: "segment_by_checkpoints t cs = Inr (t, ?cs, ?segs)"
    by (rule segment_by_checkpoints_ok) (simp add: guard)
  have len: "length ?segs = length cs + 1" by simp
  have pos: "start_key t # map Some ?cs = map Some (s # ?cs)"
       "map Some ?cs @ [end_key t] = map Some (?cs @ [e])"
    using s e by simp_all
  have nth: "?segs ! i = t\<lparr>start_key := Some ((s # ?cs) ! i), end_key := Some ((?cs @ [e]) ! i)\<rparr>"
    if "i < length ?segs" for i
  proof -
    from that have i: "i < Suc (length cs)" by simp
    have p1: "(start_key t # map Some ?cs) ! i = Some ((s # ?cs) ! i)"
      using nth_map [of i "s # ?cs" Some] i s by simp
    have p2: "(map Some ?cs @ [end_key t]) ! i = Some ((?cs @ [e]) ! i)"
      using nth_map [of i "?cs @ [e]" Some] i e by simp
    have "?segs ! i = new t ((start_key t # map Some ?cs) ! i) ((map Some ?cs @ [end_key t]) ! i)"
      using i nth_map [of i "[0..<Suc (length cs)]"] by (simp del: upt_Suc)
    also have "\<dots> = t\<lparr>start_key := Some ((s # ?cs) ! i), end_key := Some ((?cs @ [e]) ! i)\<rparr>"
      unfolding p1 p2 by (simp add: new_def)
    finally show ?thesis .
  qed
  have se: "s \<le> e" if "cs \<noteq> []"
  proof -
    from that obtain c where "c \<in> set cs" by (cases cs) auto
    with rng have "s \<le> c \<and> c < e" by blast
    then show ?thesis by simp
  qed
  have srt: "sorted ?ps" if "cs \<noteq> []"
    using rng se [OF that] by (simp add: sorted_append less_imp_le)
  have inr: "\<forall>x\<in>set ?ps. s \<le> x \<and> x \<le> e" if "cs \<noteq> []"
    using rng se [OF that] by (simp add: less_imp_le)
  have hd: "start_key (hd ?segs) = Some s"
    using nth [of 0] by (simp add: hd_conv_nth del: upt_Suc)
  have "last ?segs = ?segs ! length cs"
    by (simp add: last_conv_nth del: upt_Suc)
  then have lst: "end_key (last ?segs) = Some e"
    using nth [of "length cs"] by (simp add: nth_append del: upt_Suc)
  have contig: "end_key (?segs ! i) = start_key (?segs ! Suc i)" if "Suc i < length ?segs" for i
  proof -
    from that have i: "i < length cs" by simp
    have "(?cs @ [e]) ! i = (s # ?cs) ! Suc i" using i by (simp add: nth_append)
    then show ?thesis using nth [of i] nth [of "Suc i"] that by simp
  qed
  have ordered: "\<exists>a b. start_key (?segs ! i) = Some a \<and> end_key (?segs ! i) = Some b \<and>
                              s \<le> a \<and> a \<le> b \<and> b \<le> e"
    if "i < length ?segs" and ne: "cs \<noteq> []" for i
  proof -
    from that have i: "i \<le> length ?cs" by simp
    have a: "(s # ?cs) ! i = ?ps ! i" and b: "(?cs @ [e]) ! i = ?ps ! Suc i"
      using chain_nth [OF i] by simp_all
    have li: "i < length ?ps" "Suc i < length ?ps" using i by simp_all
    have m: "?ps ! i \<le> ?ps ! Suc i"
      using srt [OF ne] li by (intro sorted_nth_mono) simp_all
    have "?ps ! i \<in> set ?ps" using li(1) by (rule nth_mem)
    then have lo: "s \<le> ?ps ! i" using inr [OF ne] by blast
    have "?ps ! Suc i \<in> set ?ps" using li(2) by (rule nth_mem)
    then have hi: "?ps ! Suc i \<le> e" using inr [OF ne] by blast
    have "start_key (?segs ! i) = Some (?ps ! i)" "end_key (?segs ! i) = Some (?ps ! Suc i)"
      unfolding nth [OF that(1)] a b by simp_all
    with m lo hi show ?thesis by blast
  qed
  show ?thesis
  proof (intro exI [of _ ?segs] conjI allI impI)
    show "segment_by_checkpoints t cs = Inr (t, ?cs, ?segs)" by (rule res)
    show "length ?segs = length cs + 1" by (rule len)
    show "?segs ! i = t\<lparr>start_key := Some ((s # ?cs) ! i), end_key := Some ((?cs @ [e]) ! i)\<rparr>"
      if "i < length ?segs" for i using that by (rule nth)
    show "start_key (hd ?segs) = Some s" by (rule hd)
    show "end_key (last ?segs) = Some e" by (rule lst)
    show "end_key (?segs ! i) = start_key (?segs ! Suc i)" if "Suc i < length ?segs" for i
      using that by (rule contig)
    show "\<exists>a b. start_key (?segs ! i) = Some a \<and> end_key (?segs ! i) = Some b \<and>
                              s \<le> a \<and> a \<le> b \<and> b \<le> e"
      if "cs \<noteq> []" and "i < length ?segs" for i
      using that(2,1) by (rule ordered)
  qed
qed


theorem segment_by_checkpoints_contiguous_witness:
  "segment_by_checkpoints
     (new (table_segment (table_db [] (\<lambda>rs. None) :: unit Database) [''t''] ''id'') (Some 1) (Some 10))
     [7, 3] =
   Inr (new (table_segment (table_db [] (\<lambda>rs. None)) [''t''] ''id'') (Some 1) (Some 10),
        [3, 7],
        [new (table_segment (table_db [] (\<lambda>rs. None)) [''t''] ''id'') (Some 1) (Some 3),
         new (table_segment (table_db [] (\<lambda>rs. None)) [''t''] ''id'') (Some 3) (Some 7),
         new (table_segment (table_db [] (\<lambda>rs. None)) [''t''] ''id'') (Some 7) (Some 10)])"
proof -
  let ?t = "new (table_segment (table_db [] (\<lambda>rs. None) :: unit Database) [''t''] ''id'')
              (Some 1) (Some 10)"
  have h1: "start_key ?t = Some 1" and h2: "end_key ?t = Some 10"
    by (simp_all add: new_def)
  have h3: "\<forall>c\<in>set [7, 3 :: int]. 1 \<le> c \<and> c < 10" by simp
  from segment_by_checkpoints_contiguous [OF h1 h2 h3]
  obtain segs where r: "segment_by_checkpoints ?t [7, 3] = Inr (?t, sort [7, 3], segs)"
    and l: "length segs = length [7, 3 :: int] + 1"
    and n: "\<forall>i<length segs. segs ! i = ?t\<lparr>start_key := Some ((1 # sort [7, 3]) ! i),
                                      end_key := Some ((sort [7, 3] @ [10]) ! i)\<rparr>"
    by blast
  from l have l3: "length segs = 3" by simp
  then obtain a b c where segs: "segs = [a, b, c]"
    by (cases segs; cases "tl segs"; cases "tl (tl segs)") auto
  from n l3 have "segs ! 0 = ?t\<lparr>start_key := Some 1, end_key := Some 3\<rparr>"
    "segs ! 1 = ?t\<lparr>start_key := Some 3, end_key := Some 7\<rparr>"
    "segs ! 2 = ?t\<lparr>start_key := Some 7, end_key := Some 10\<rparr>"
    by (simp_all add: nth_Cons')
  with segs have "segs = [new ?t (Some 1) (Some 3), new ?t (Some 3) (Some 7), new ?t (Some 7) (Some 10)]"
    by (simp add: new_def)
  with r show ?thesis by (simp add: new_def)
qed





section \<open>The local set diff\<close>

lemma map_fst_d_append:
  "map fst (d_append d k v) = (if k \<in> fst ` set d then map fst d else map fst d @ [k])"
  by (induction d k v rule: d_append.induct) auto

lemma distinct_d_append:
  "distinct (map fst d) \<Longrightarrow> distinct (map fst (d_append d k v))"
  by (simp add: map_fst_d_append)

lemma d_get_d_append:
  "d_get (d_append d k v) k' = (if k' = k then d_get d k @ [v] else d_get d k')"
  by (induction d k v rule: d_append.induct) (auto simp: d_get_def)

lemma fold_d_append:
  "d_get (fold (\<lambda>i d. d_append d (key i) (mk i)) xs d) k =
     d_get d k @ map mk (filter (\<lambda>i. key i = k) xs)"
  by (induction xs arbitrary: d) (auto simp: d_get_d_append)

lemma keys_d_append: "fst ` set (d_append d k v) = insert k (fst ` set d)"
proof -
  have "set (map fst (d_append d k v)) = insert k (set (map fst d))"
    unfolding map_fst_d_append by auto
  then show ?thesis by simp
qed

lemma fold_d_append_keys:
  "fst ` set (fold (\<lambda>i d. d_append d (key i) (mk i)) xs d) = fst ` set d \<union> key ` set xs"
  by (induction xs arbitrary: d) (simp_all add: keys_d_append)

lemma fold_d_append_distinct:
  "distinct (map fst d) \<Longrightarrow> distinct (map fst (fold (\<lambda>i d. d_append d (key i) (mk i)) xs d))"
  by (induction xs arbitrary: d) (auto simp: distinct_d_append)

lemma map_snd_d_get:
  "distinct (map fst d) \<Longrightarrow> set d' \<subseteq> set d \<Longrightarrow> map snd d' = map (d_get d) (map fst d')"
  by (induction d') (auto simp: d_get_def)


lemma sorted_map_const:
  fixes c :: "'b::linorder"
  shows "\<forall>x\<in>set xs. f x = c \<Longrightarrow> sorted (map f xs)"
  by (induction xs) auto

lemma concat_groups_sorted:
  fixes ek :: "'e \<Rightarrow> 'k::linorder"
  assumes "\<And>k e. e \<in> set (G k) \<Longrightarrow> ek e = k"
  shows "sorted ks \<Longrightarrow> sorted (map ek (concat (map G ks)))"
proof (induction ks)
  case Nil
  then show ?case by simp
next
  case (Cons k ks)
  have "\<forall>x\<in>set (G k). \<forall>y\<in>set (concat (map G ks)). ek x \<le> ek y"
  proof (intro ballI)
    fix x y assume x: "x \<in> set (G k)" and y: "y \<in> set (concat (map G ks))"
    from y obtain k' where k': "k' \<in> set ks" "y \<in> set (G k')" by auto
    from Cons.prems k'(1) have "k \<le> k'" by simp
    with assms [OF x] assms [OF k'(2)] show "ek x \<le> ek y" by simp
  qed
  moreover have "sorted (map ek (G k))"
    using assms by (intro sorted_map_const [of _ _ k]) simp
  moreover have "sorted (map ek (concat (map G ks)))"
    using Cons by simp
  ultimately show ?case by (simp add: sorted_append)
qed

lemma concat_groups_filter:
  assumes "\<And>k e. e \<in> set (G k) \<Longrightarrow> ek e = k"
  shows "distinct ks \<Longrightarrow>
    filter (\<lambda>e. ek e = k) (concat (map G ks)) = (if k \<in> set ks then G k else [])"
proof (induction ks)
  case Nil
  then show ?case by simp
next
  case (Cons k' ks)
  have same: "filter (\<lambda>e. ek e = k) (G k') = (if k' = k then G k' else [])"
    using assms by (auto simp: filter_empty_conv intro: filter_True)
  show ?case using Cons same by auto
qed

lemma concat_groups_distinct:
  assumes "\<And>k e. e \<in> set (G k) \<Longrightarrow> ek e = k" and "\<And>k. distinct (G k)"
  shows "distinct ks \<Longrightarrow> distinct (concat (map G ks))"
proof (induction ks)
  case Nil
  then show ?case by simp
next
  case (Cons k ks)
  have "set (G k) \<inter> set (concat (map G ks)) = {}"
  proof (rule ccontr)
    assume "set (G k) \<inter> set (concat (map G ks)) \<noteq> {}"
    then obtain x k' where "x \<in> set (G k)" "k' \<in> set ks" "x \<in> set (G k')" by auto
    with assms(1) have "k = k'" by blast
    with \<open>k' \<in> set ks\<close> Cons.prems show False by simp
  qed
  with Cons assms(2) show ?case by simp
qed


lemma diff_sets_groups:
  fixes a b :: "'c row list" and iter :: "'c row list \<Rightarrow> 'c row list"
  defines "P \<equiv> iter (filter (\<lambda>i. i \<notin> set b) a)" and "M \<equiv> iter (filter (\<lambda>i. i \<notin> set a) b)"
  shows "\<exists>ks. sorted ks \<and> distinct ks \<and> set ks = fst ` (set P \<union> set M) \<and>
              diff_sets iter a b = concat (map (key_group P M) ks)"
proof -
  let ?fp = "\<lambda>(i :: 'c row) d. d_append d (fst i) (''+'', i)"
  let ?fm = "\<lambda>(i :: 'c row) d. d_append d (fst i) (''-'', i)"
  let ?d1 = "fold ?fp P []"
  let ?d2 = "fold ?fm M ?d1"
  let ?sd = "sort_key fst ?d2"
  let ?ks = "map fst ?sd"
  have out: "diff_sets iter a b = concat (map snd ?sd)"
    by (simp add: diff_sets_def P_def M_def Let_def)
  have dist1: "distinct (map fst ?d1)"
    using fold_d_append_distinct [of "[]" fst "Pair ''+''" P] by simp
  have dist2: "distinct (map fst ?d2)"
    using fold_d_append_distinct [OF dist1, of fst "Pair ''-''" M] by simp
  have get1: "d_get ?d1 k = map (Pair ''+'') (filter (\<lambda>i. fst i = k) P)" for k
    using fold_d_append [of fst "Pair ''+''" P "[]" k] by (simp add: d_get_def)
  have get2: "d_get ?d2 k = key_group P M k" for k
    using fold_d_append [of fst "Pair ''-''" M ?d1 k] by (simp add: get1 key_group_def)
  have keys: "fst ` set ?d2 = fst ` (set P \<union> set M)"
    using fold_d_append_keys [of fst "Pair ''-''" M ?d1]
      fold_d_append_keys [of fst "Pair ''+''" P "[]"] by (simp add: image_Un)
  have "map snd ?sd = map (d_get ?d2) ?ks"
    by (rule map_snd_d_get [OF dist2]) simp
  then have "map snd ?sd = map (key_group P M) ?ks"
    by (simp add: get2)
  with out have 1: "diff_sets iter a b = concat (map (key_group P M) ?ks)" by simp
  have 2: "sorted ?ks" by (rule sorted_sort_key)
  have 3: "distinct ?ks"
    using dist2 by (simp add: distinct_map)
  have 4: "set ?ks = fst ` (set P \<union> set M)"
    using keys by simp
  from 1 2 3 4 show ?thesis by blast
qed

lemma key_group_key: "e \<in> set (key_group P M k) \<Longrightarrow> fst (snd e) = k"
  by (auto simp: key_group_def)

lemma key_group_distinct: "distinct P \<Longrightarrow> distinct M \<Longrightarrow> distinct (key_group P M k)"
  by (auto simp: key_group_def distinct_map inj_on_def)

lemma diff_sets_set_distinct:
  fixes a b :: "'c row list"
  assumes it: "set_iteration iter"
  shows "set (diff_sets iter a b) =
           Pair ''+'' ` (set a - set b) \<union> Pair ''-'' ` (set b - set a) \<and>
         distinct (diff_sets iter a b)"
proof -
  let ?P = "iter (filter (\<lambda>i. i \<notin> set b) a)"
  let ?M = "iter (filter (\<lambda>i. i \<notin> set a) b)"
  from it have sP: "set ?P = set a - set b" and sM: "set ?M = set b - set a"
    and dP: "distinct ?P" and dM: "distinct ?M"
    by (auto simp: set_iteration_def)
  from diff_sets_groups [where iter = iter and a = a and b = b]
  obtain ks where ks: "sorted ks" "distinct ks" "set ks = fst ` (set ?P \<union> set ?M)"
    and out: "diff_sets iter a b = concat (map (key_group ?P ?M) ks)" by blast
  have "set (concat (map (key_group ?P ?M) ks)) = Pair ''+'' ` set ?P \<union> Pair ''-'' ` set ?M"
  proof (intro set_eqI iffI)
    fix e assume "e \<in> set (concat (map (key_group ?P ?M) ks))"
    then show "e \<in> Pair ''+'' ` set ?P \<union> Pair ''-'' ` set ?M"
      by (auto simp: key_group_def)
  next
    fix e assume e: "e \<in> Pair ''+'' ` set ?P \<union> Pair ''-'' ` set ?M"
    then have "fst (snd e) \<in> set ks" using ks(3) by auto
    moreover from e have "e \<in> set (key_group ?P ?M (fst (snd e)))"
      by (auto simp: key_group_def)
    ultimately show "e \<in> set (concat (map (key_group ?P ?M) ks))" by auto
  qed
  then have 1: "set (diff_sets iter a b) =
           Pair ''+'' ` (set a - set b) \<union> Pair ''-'' ` (set b - set a)"
    by (simp add: out sP sM)
  have 2: "distinct (diff_sets iter a b)"
    unfolding out
    by (rule concat_groups_distinct [where ek = "\<lambda>ev. fst (snd ev)"])
       (simp_all add: key_group_key key_group_distinct dP dM ks)
  from 1 2 show ?thesis by simp
qed

text \<open>
  Claim C2.  Whatever the order in which the two set differences are iterated,
  \<open>diff_sets a b\<close> emits \<open>("+", t)\<close> exactly once for every tuple \<open>t\<close> of \<open>a\<close> that is not in
  \<open>b\<close>, \<open>("-", t)\<close> exactly once for every tuple of \<open>b\<close> that is not in \<open>a\<close>, and nothing
  else.  The keys of the emitted events are in ascending order, so the events of one key
  are contiguous and the groups come in ascending key order; and the events of any key
  \<open>k\<close>, in the order of the stream, are its \<open>"+"\<close> events followed by its \<open>"-"\<close> events
  (each in the order in which the set difference was iterated).
\<close>

theorem diff_sets_ordering:
  fixes a b :: "'c row list"
  assumes it: "set_iteration iter"
  shows "set (diff_sets iter a b) =
           Pair ''+'' ` (set a - set b) \<union> Pair ''-'' ` (set b - set a) \<and>
         distinct (diff_sets iter a b) \<and>
         sorted (map (\<lambda>ev. fst (snd ev)) (diff_sets iter a b)) \<and>
         (\<forall>k. filter (\<lambda>ev. fst (snd ev) = k) (diff_sets iter a b) =
                map (Pair ''+'') (filter (\<lambda>i. fst i = k) (iter (filter (\<lambda>i. i \<notin> set b) a))) @
                map (Pair ''-'') (filter (\<lambda>i. fst i = k) (iter (filter (\<lambda>i. i \<notin> set a) b))))"
proof -
  let ?P = "iter (filter (\<lambda>i. i \<notin> set b) a)"
  let ?M = "iter (filter (\<lambda>i. i \<notin> set a) b)"
  from diff_sets_groups [where iter = iter and a = a and b = b]
  obtain ks where ks: "sorted ks" "distinct ks" "set ks = fst ` (set ?P \<union> set ?M)"
    and out: "diff_sets iter a b = concat (map (key_group ?P ?M) ks)" by blast
  have 3: "sorted (map (\<lambda>ev. fst (snd ev)) (diff_sets iter a b))"
    unfolding out
    by (rule concat_groups_sorted) (simp_all add: key_group_key ks)
  have 4: "filter (\<lambda>ev. fst (snd ev) = k) (diff_sets iter a b) = key_group ?P ?M k" for k
  proof -
    have "filter (\<lambda>ev. fst (snd ev) = k) (concat (map (key_group ?P ?M) ks)) =
        (if k \<in> set ks then key_group ?P ?M k else [])"
      by (rule concat_groups_filter) (simp_all add: key_group_key ks)
    moreover have "key_group ?P ?M k = []" if "k \<notin> set ks"
      using that ks(3) by (auto simp: key_group_def filter_empty_conv)
    ultimately show ?thesis unfolding out by auto
  qed
  from diff_sets_set_distinct [OF it, of a b] 3 4 show ?thesis by (simp add: key_group_def)
qed

theorem diff_sets_ordering_witness:
  "set_iteration (remdups :: string row list \<Rightarrow> string row list) \<and>
   diff_sets remdups [(1, ''a''), (3, ''c''), (2, ''b'')] [(2, ''B''), (1, ''a'')] =
     [(''+'', (2, ''b'')), (''-'', (2, ''B'')), (''+'', (3, ''c''))] \<and>
   sorted (map (\<lambda>ev. fst (snd ev))
     (diff_sets remdups [(1, ''a''), (3, ''c''), (2, ''b'')] [(2, ''B''), (1 :: int, ''a'')])) \<and>
   filter (\<lambda>ev. fst (snd ev) = 2)
     (diff_sets remdups [(1, ''a''), (3, ''c''), (2, ''b'')] [(2, ''B''), (1, ''a'')]) =
     [(''+'', (2, ''b'')), (''-'', (2, ''B''))]"
proof -
  have h: "set_iteration (remdups :: string row list \<Rightarrow> string row list)"
    by (simp add: set_iteration_def)
  have v: "diff_sets remdups [(1, ''a''), (3, ''c''), (2, ''b'')] [(2, ''B''), (1 :: int, ''a'')] =
     [(''+'', (2, ''b'')), (''-'', (2, ''B'')), (''+'', (3, ''c''))]"
    by (simp add: diff_sets_def)
  from diff_sets_ordering [OF h, of "[(1, ''a''), (3, ''c''), (2, ''b'')]" "[(2, ''B''), (1, ''a'')]"]
  have "sorted (map (\<lambda>ev. fst (snd ev))
     (diff_sets remdups [(1, ''a''), (3, ''c''), (2, ''b'')] [(2, ''B''), (1 :: int, ''a'')]))"
    and "filter (\<lambda>ev. fst (snd ev) = 2)
     (diff_sets remdups [(1, ''a''), (3, ''c''), (2, ''b'')] [(2, ''B''), (1, ''a'')]) =
       map (Pair ''+'') (filter (\<lambda>i. fst i = 2)
          (remdups (filter (\<lambda>i. i \<notin> set [(2, ''B''), (1, ''a'')]) [(1, ''a''), (3, ''c''), (2, ''b'')]))) @
       map (Pair ''-'') (filter (\<lambda>i. fst i = 2)
          (remdups (filter (\<lambda>i. i \<notin> set [(1, ''a''), (3, ''c''), (2, ''b'')]) [(2, ''B''), (1, ''a'')])))"
    by blast+
  then show ?thesis using h v by simp
qed


section \<open>The differ: one segment pair, and the entry point\<close>

lemma priv_diff_tables_unfold:
  assumes "start_key table1 \<noteq> None" and "end_key table2 \<noteq> None"
    and "count_and_checksum table1 = (count1, checksum1)"
    and "count_and_checksum table2 = (count2, checksum2)"
  shows "priv_diff_tables fuel iter d table1 table2 level st =
     (if count1 = 0 \<and> count2 = 0 then
        (if checksum1 = None \<and> checksum2 = None then Some (([], None), st)
         else Some (([], Some AssertionError), st))
      else if checksum1 \<noteq> checksum2 then
        priv_bisect_and_diff_tables fuel iter d table1 table2 level (Some (max count1 count2))
          (if level = 1 then st(''table1_count'' \<mapsto> table1_count st + count1) else st)
      else Some (([], None),
          (if level = 1 then st(''table1_count'' \<mapsto> table1_count st + count1) else st)))"
proof -
  from assms(1,2) obtain s1 e2 where k: "start_key table1 = Some s1" "end_key table2 = Some e2"
    by auto
  show ?thesis
    by (simp add: k assms(3,4) Let_def)
qed


lemmas example_defs = small_differ_def sum_checksum_def table_of_def table_segment_def table_db_def
  key_filter_def new_def count_and_checksum_def get_values_def is_bounded_def

text \<open>
  Claim C4.  Once the segment pair's log line has been written (both keys it subtracts are
  set) and \<open>(count, checksum)\<close> has been obtained for both sides: if both counts are zero
  \<open>_diff_tables\<close> yields no event (it ends normally when both checksums are null, and with
  the failed assertion otherwise); if not, and the two checksums differ, it is
  \<open>_bisect_and_diff_tables\<close> on the same pair and level with
  \<open>max_rows = max(count1, count2)\<close>; if not, and the checksums are equal, it yields no
  event.  (In the last two cases the statistics are updated first when \<open>level\<close> is 1.)
\<close>

theorem priv_diff_tables_decision:
  assumes "start_key table1 \<noteq> None" and "end_key table2 \<noteq> None"
    and "count_and_checksum table1 = (count1, checksum1)"
    and "count_and_checksum table2 = (count2, checksum2)"
  shows "(count1 = 0 \<and> count2 = 0 \<longrightarrow>
           priv_diff_tables fuel iter d table1 table2 level st =
             Some (([], if checksum1 = None \<and> checksum2 = None then None else Some AssertionError), st)) \<and>
         (\<not> (count1 = 0 \<and> count2 = 0) \<and> checksum1 \<noteq> checksum2 \<longrightarrow>
           priv_diff_tables fuel iter d table1 table2 level st =
             priv_bisect_and_diff_tables fuel iter d table1 table2 level (Some (max count1 count2))
               (if level = 1 then st(''table1_count'' \<mapsto> table1_count st + count1) else st)) \<and>
         (\<not> (count1 = 0 \<and> count2 = 0) \<and> checksum1 = checksum2 \<longrightarrow>
           priv_diff_tables fuel iter d table1 table2 level st =
             Some (([], None),
               (if level = 1 then st(''table1_count'' \<mapsto> table1_count st + count1) else st)))"
  unfolding priv_diff_tables_unfold [OF assms] by simp

theorem priv_diff_tables_decision_witness:
  "priv_diff_tables 1 remdups small_differ
      (new (table_of [(1, ''a'')]) (Some 0) (Some 5)) (new (table_of [(1, ''bb'')]) (Some 0) (Some 5))
      2 Map.empty =
     Some (([(''+'', (1, ''a'')), (''-'', (1, ''bb''))], None), Map.empty) \<and>
   priv_diff_tables 1 remdups small_differ
      (new (table_of [(1, ''a'')]) (Some 0) (Some 5)) (new (table_of [(1, ''a'')]) (Some 0) (Some 5))
      2 Map.empty =
     Some (([], None), Map.empty) \<and>
   priv_diff_tables 1 remdups small_differ
      (new (table_of [(1, ''a'')]) (Some 2) (Some 5)) (new (table_of [(1, ''bb'')]) (Some 2) (Some 5))
      2 Map.empty =
     Some (([], None), Map.empty)"
proof -
  let ?a = "new (table_of [(1, ''a'')]) (Some 0) (Some 5)"
  let ?b = "new (table_of [(1, ''bb'')]) (Some 0) (Some 5)"
  let ?a' = "new (table_of [(1, ''a'')]) (Some 2) (Some 5)"
  let ?b' = "new (table_of [(1, ''bb'')]) (Some 2) (Some 5)"
  have ca: "count_and_checksum ?a = (1, Some 2)" and cb: "count_and_checksum ?b = (1, Some 3)"
    and ca': "count_and_checksum ?a' = (0, None)" and cb': "count_and_checksum ?b' = (0, None)"
    by (simp_all add: example_defs)
  have k: "start_key ?a \<noteq> None" "end_key ?b \<noteq> None" "end_key ?a \<noteq> None"
    "start_key ?a' \<noteq> None" "end_key ?b' \<noteq> None"
    by (simp_all add: new_def)
  have leaf: "priv_bisect_and_diff_tables 1 remdups small_differ ?a ?b 2 (Some 1) Map.empty =
      Some (([(''+'', (1, ''a'')), (''-'', (1, ''bb''))], None), Map.empty)"
    by (simp add: example_defs diff_sets_def)
  have 1: "priv_diff_tables 1 remdups small_differ ?a ?b 2 Map.empty =
      Some (([(''+'', (1, ''a'')), (''-'', (1, ''bb''))], None), Map.empty)"
    using priv_diff_tables_decision [OF k(1,2) ca cb, of 1 remdups small_differ 2 Map.empty] leaf
    by simp
  have 2: "priv_diff_tables 1 remdups small_differ ?a ?a 2 Map.empty = Some (([], None), Map.empty)"
    using priv_diff_tables_decision [OF k(1,3) ca ca, of 1 remdups small_differ 2 Map.empty]
    by simp
  have 3: "priv_diff_tables 1 remdups small_differ ?a' ?b' 2 Map.empty = Some (([], None), Map.empty)"
    using priv_diff_tables_decision [OF k(4,5) ca' cb', of 1 remdups small_differ 2 Map.empty]
    by simp
  from 1 2 3 show ?thesis by simp
qed

text \<open>
  Claim C5, as the code has it.  \<open>_diff_tables\<close> returns before it compares the checksums
  only when both counts are zero.  When a checksum is null and the counts are not both
  zero, the comparison \<open>checksum1 != checksum2\<close> is made: a null checksum against one that
  is not null is a difference, and the differ recurses into \<open>_bisect_and_diff_tables\<close>
  with \<open>max_rows = max(count1, count2)\<close>; two null checksums are equal, and no event is
  produced.
\<close>

theorem priv_diff_tables_null_checksum:
  assumes "start_key table1 \<noteq> None" and "end_key table2 \<noteq> None"
    and "count_and_checksum table1 = (count1, checksum1)"
    and "count_and_checksum table2 = (count2, checksum2)"
    and "checksum1 = None \<or> checksum2 = None"
  shows "(count1 = 0 \<and> count2 = 0 \<longrightarrow>
           priv_diff_tables fuel iter d table1 table2 level st =
             Some (([], if checksum1 = None \<and> checksum2 = None then None else Some AssertionError), st)) \<and>
         (\<not> (count1 = 0 \<and> count2 = 0) \<and> (checksum1 \<noteq> None \<or> checksum2 \<noteq> None) \<longrightarrow>
           priv_diff_tables fuel iter d table1 table2 level st =
             priv_bisect_and_diff_tables fuel iter d table1 table2 level (Some (max count1 count2))
               (if level = 1 then st(''table1_count'' \<mapsto> table1_count st + count1) else st)) \<and>
         (\<not> (count1 = 0 \<and> count2 = 0) \<and> checksum1 = None \<and> checksum2 = None \<longrightarrow>
           priv_diff_tables fuel iter d table1 table2 level st =
             Some (([], None),
               (if level = 1 then st(''table1_count'' \<mapsto> table1_count st + count1) else st)))"
proof -
  have "checksum1 \<noteq> checksum2" if "checksum1 \<noteq> None \<or> checksum2 \<noteq> None"
    using that assms(5) by auto
  then show ?thesis
    unfolding priv_diff_tables_unfold [OF assms(1-4)] by auto
qed

theorem priv_diff_tables_null_checksum_witness:
  "count_and_checksum (new (table_of []) (Some 0) (Some 5)) = (0, None) \<and>
   count_and_checksum (new (table_of [(1, ''a'')]) (Some 0) (Some 5)) = (1, Some 2) \<and>
   priv_diff_tables 1 remdups small_differ
      (new (table_of []) (Some 0) (Some 5)) (new (table_of [(1, ''a'')]) (Some 0) (Some 5))
      2 Map.empty =
   priv_bisect_and_diff_tables 1 remdups small_differ
      (new (table_of []) (Some 0) (Some 5)) (new (table_of [(1, ''a'')]) (Some 0) (Some 5))
      2 (Some 1) Map.empty"
proof -
  let ?a = "new (table_of []) (Some 0) (Some 5)"
  let ?b = "new (table_of [(1, ''a'')]) (Some 0) (Some 5)"
  have ca: "count_and_checksum ?a = (0, None)" and cb: "count_and_checksum ?b = (1, Some 2)"
    by (simp_all add: example_defs)
  have k: "start_key ?a \<noteq> None" "end_key ?b \<noteq> None"
    by (simp_all add: new_def)
  have n: "(None :: int option) = None \<or> Some (2::int) = None" by simp
  show ?thesis
    using priv_diff_tables_null_checksum [OF k ca cb n, of 1 remdups small_differ 2 Map.empty] ca cb
    by simp
qed

text \<open>
  A null checksum that is compared: the left segment is empty, so its answer is
  \<open>(0, None)\<close>; the right one holds one row, so its answer is \<open>(1, 2)\<close>.  The counts are
  not both zero, \<open>None != 2\<close> holds, and the differ recurses and emits the row; a differ
  that returned early would emit nothing.
\<close>

theorem null_checksum_compared_counterexample:
  "count_and_checksum (new (table_of []) (Some 0) (Some 5)) = (0, None) \<and>
   count_and_checksum (new (table_of [(1, ''a'')]) (Some 0) (Some 5)) = (1, Some 2) \<and>
   priv_diff_tables 1 remdups small_differ
      (new (table_of []) (Some 0) (Some 5)) (new (table_of [(1, ''a'')]) (Some 0) (Some 5))
      2 Map.empty =
     Some (([(''-'', (1, ''a''))], None), Map.empty)"
  by (simp add: example_defs diff_sets_def)




section \<open>The recursion on tables with unique keys\<close>




lemma seg_rows_keys: "r \<in> set (seg_rows A s e) \<longleftrightarrow> r \<in> set A \<and> s \<le> fst r \<and> fst r < e"
  by (auto simp: seg_rows_def key_filter_def)


lemma seg_events_iff:
  "ev \<in> seg_events A B s e \<longleftrightarrow>
     s \<le> fst (snd ev) \<and> fst (snd ev) < e \<and>
     (fst ev = ''+'' \<and> snd ev \<in> set A \<and> snd ev \<notin> set B \<or>
      fst ev = ''-'' \<and> snd ev \<in> set B \<and> snd ev \<notin> set A)"
  by (cases ev) (auto simp: seg_events_def seg_rows_keys)


lemma seg_events_key:
  "ev \<in> seg_events A B s e \<Longrightarrow> s \<le> fst (snd ev) \<and> fst (snd ev) < e"
  by (simp add: seg_events_iff)




















section \<open>End-to-end correctness and termination\<close>





















section \<open>The statistics\<close>



















end
